theory Spec2Isabelle
  imports Main "HOL-Library.Monad_Syntax" "HOL-Library.Word"
begin

section \<open>Data model of the compositor (src/screenshader.c)\<close>

text \<open>
  X resource identifiers (\<open>Window\<close>, \<open>Pixmap\<close>, \<open>GLXPixmap\<close>, \<open>Damage\<close>) and GL object
  names (\<open>GLuint\<close>) are unsigned identifiers on which the program does no arithmetic:
  they are natural numbers, with 0 for \<open>None\<close>. C \<open>int\<close> fields are only compared and
  copied by the functions below, so they are integers. A \<open>WinEntry *\<close> is an address
  in an explicit store, with \<open>None\<close> for \<open>NULL\<close>.
\<close>

type_synonym addr = nat
type_synonym Window = nat

record WinEntry =
  w_xid :: Window
  w_pixmap :: nat
  w_glx_pixmap :: nat
  w_texture :: nat
  w_damage :: nat
  w_x :: int
  w_y :: int
  w_width :: int
  w_height :: int
  w_border_width :: int
  w_mapped :: bool
  w_override_redirect :: bool
  w_damaged :: bool
  w_pixmap_valid :: bool
  w_next :: "addr option"
  w_prev :: "addr option"

text \<open>The block that \<open>calloc(1, sizeof(WinEntry))\<close> returns: every field zero.\<close>

definition calloc_WinEntry :: WinEntry where
  "calloc_WinEntry =
     \<lparr>w_xid = 0, w_pixmap = 0, w_glx_pixmap = 0, w_texture = 0, w_damage = 0,
      w_x = 0, w_y = 0, w_width = 0, w_height = 0, w_border_width = 0,
      w_mapped = False, w_override_redirect = False, w_damaged = False,
      w_pixmap_valid = False, w_next = None, w_prev = None\<rparr>"

text \<open>
  One entry of \<open>params[]\<close>. A C \<open>float\<close> is kept as its 32-bit pattern; the program
  never computes with it.
\<close>

record param =
  p_name :: string
  p_value :: "32 word"
  p_location :: int

text \<open>
  The fields of \<open>Compositor\<close> that the modelled functions read or write. \<open>params\<close> is
  the prefix \<open>params[0 .. param_count)\<close> of the C array (no function reads a slot at
  or beyond \<open>param_count\<close>). \<open>heap\<close> is the store of the \<open>WinEntry\<close> objects and
  \<open>heap_brk\<close> the next address \<open>calloc\<close> hands out (addresses below it have been
  handed out before; the program compares pointers only for equality).
\<close>

record Compositor =
  root :: Window
  overlay :: Window
  root_width :: int
  root_height :: int
  tfp_format :: "int \<Rightarrow> int"
  tfp_available :: "int \<Rightarrow> bool"
  postproc_prog :: nat
  u_screen_tex :: int
  u_resolution :: int
  u_time :: int
  win_head :: "addr option"
  win_tail :: "addr option"
  params :: "param list"
  param_mtime :: int
  needs_redraw :: bool
  heap :: "addr \<rightharpoonup> WinEntry"
  heap_brk :: addr

definition MAX_DEPTH :: int where
  "MAX_DEPTH = 33"

definition MAX_PARAMS :: nat where
  "MAX_PARAMS = 16"

text \<open>\<open>p->field = v\<close> through a pointer: undefined (\<open>None\<close>) when \<open>p\<close> is not a live object.\<close>

definition store :: "Compositor \<Rightarrow> addr \<Rightarrow> (WinEntry \<Rightarrow> WinEntry) \<Rightarrow> Compositor option" where
  "store c a f =
     (case heap c a of
        None \<Rightarrow> None
      | Some e \<Rightarrow> Some (c\<lparr>heap := (heap c)(a \<mapsto> f e)\<rparr>))"

section \<open>Window pixmap management\<close>

text \<open>
  What the X server and the GL report during one call of \<open>bind_window_pixmap\<close>:
  the reply of \<open>XGetWindowAttributes\<close> (\<open>None\<close> when it returns 0), the pixmap named by
  \<open>XCompositeNameWindowPixmap\<close>, the GLX pixmap of \<open>glXCreatePixmap\<close> and the texture
  name of \<open>glGenTextures\<close>.
\<close>

record XWindowAttributes =
  at_x :: int
  at_y :: int
  at_width :: int
  at_height :: int
  at_border_width :: int
  at_override_redirect :: bool
  at_map_state :: int
  at_depth :: int

definition IsViewable :: int where
  "IsViewable = 2"

record bind_reply =
  b_attr :: "XWindowAttributes option"
  b_pixmap :: nat
  b_glx_pixmap :: nat
  b_texture :: nat

definition unbind_window_pixmap :: "WinEntry \<Rightarrow> WinEntry" where
  "unbind_window_pixmap w =
     (if \<not> w_pixmap_valid w then w
      else w\<lparr>w_texture := 0, w_glx_pixmap := 0, w_pixmap := 0, w_pixmap_valid := False\<rparr>)"

text \<open>The resources one call of \<open>unbind_window_pixmap\<close> releases, in the order of the calls.\<close>

datatype release =
    ReleaseTexImage nat
  | DeleteTexture nat
  | DestroyGLXPixmap nat
  | FreePixmap nat

definition unbind_releases :: "WinEntry \<Rightarrow> release list" where
  "unbind_releases w =
     (if \<not> w_pixmap_valid w then []
      else [ReleaseTexImage (w_glx_pixmap w), DeleteTexture (w_texture w),
            DestroyGLXPixmap (w_glx_pixmap w), FreePixmap (w_pixmap w)])"

definition bind_window_pixmap :: "Compositor \<Rightarrow> bind_reply \<Rightarrow> WinEntry \<Rightarrow> WinEntry" where
  "bind_window_pixmap cmp r w0 =
     (let w = (if w_pixmap_valid w0 then unbind_window_pixmap w0 else w0) in
      if \<not> w_mapped w \<or> w_width w \<le> 0 \<or> w_height w \<le> 0 then w
      else case b_attr r of
        None \<Rightarrow> w
      | Some attr \<Rightarrow>
          if at_map_state attr \<noteq> IsViewable then w
          else let depth = at_depth attr in
            if depth \<le> 0 \<or> depth \<ge> MAX_DEPTH \<or> \<not> tfp_available cmp depth then w
            else let w1 = w\<lparr>w_pixmap := b_pixmap r\<rparr> in
              if w_pixmap w1 = 0 then w1
              else let w2 = w1\<lparr>w_glx_pixmap := b_glx_pixmap r\<rparr> in
                if w_glx_pixmap w2 = 0 then w2\<lparr>w_pixmap := 0\<rparr>
                else w2\<lparr>w_texture := b_texture r, w_pixmap_valid := True, w_damaged := True\<rparr>)"

section \<open>Window list management\<close>

text \<open>
  The loop of \<open>find_win\<close>, from the entry \<open>p\<close> on. Following a pointer to an object
  that is not live is undefined, and so is a walk that never reaches \<open>NULL\<close>: both are
  the value \<open>None\<close>. \<open>Some None\<close> is the result \<open>NULL\<close>.
\<close>

partial_function (option) find_win_from ::
    "(addr \<rightharpoonup> WinEntry) \<Rightarrow> addr option \<Rightarrow> Window \<Rightarrow> addr option option" where
  "find_win_from h p xid =
     (case p of
        None \<Rightarrow> Some None
      | Some a \<Rightarrow>
          (case h a of
             None \<Rightarrow> None
           | Some e \<Rightarrow> if w_xid e = xid then Some (Some a) else find_win_from h (w_next e) xid))"

definition find_win :: "Compositor \<Rightarrow> Window \<Rightarrow> addr option option" where
  "find_win cmp xid = find_win_from (heap cmp) (win_head cmp) xid"

text \<open>
  The block commented \<open>Unlink\<close>, which \<open>remove_win\<close>, \<open>restack_win\<close> and
  \<open>handle_circulate\<close> each contain: the two conditionals, reading \<open>w\<close> again for
  the second one as the C does.
\<close>

definition unlink :: "Compositor \<Rightarrow> addr \<Rightarrow> Compositor option" where
  "unlink cmp w =
     do {
       e \<leftarrow> heap cmp w;
       c1 \<leftarrow> (case w_prev e of
                Some p \<Rightarrow> store cmp p (\<lambda>x. x\<lparr>w_next := w_next e\<rparr>)
              | None \<Rightarrow> Some (cmp\<lparr>win_head := w_next e\<rparr>));
       e1 \<leftarrow> heap c1 w;
       (case w_next e1 of
          Some n \<Rightarrow> store c1 n (\<lambda>x. x\<lparr>w_prev := w_prev e1\<rparr>)
        | None \<Rightarrow> Some (c1\<lparr>win_tail := w_prev e1\<rparr>))
     }"

definition remove_win :: "Compositor \<Rightarrow> addr option \<Rightarrow> Compositor option" where
  "remove_win cmp wp =
     (case wp of
        None \<Rightarrow> Some cmp
      | Some w \<Rightarrow>
          do {
            c1 \<leftarrow> store cmp w (\<lambda>e. if w_damage e \<noteq> 0 then e\<lparr>w_damage := 0\<rparr> else e);
            c2 \<leftarrow> store c1 w unbind_window_pixmap;
            c3 \<leftarrow> unlink c2 w;
            Some (c3\<lparr>heap := (heap c3)(w := None)\<rparr>)
          })"

text \<open>The three ways \<open>restack_win\<close> links the entry it has unlinked.\<close>

definition link_bottom :: "Compositor \<Rightarrow> addr \<Rightarrow> Compositor option" where
  "link_bottom cmp w =
     do {
       c1 \<leftarrow> store cmp w (\<lambda>e. e\<lparr>w_next := win_head cmp, w_prev := None\<rparr>);
       c2 \<leftarrow> (case win_head c1 of
                Some h \<Rightarrow> store c1 h (\<lambda>e. e\<lparr>w_prev := Some w\<rparr>)
              | None \<Rightarrow> Some (c1\<lparr>win_tail := Some w\<rparr>));
       Some (c2\<lparr>win_head := Some w\<rparr>)
     }"

definition link_top :: "Compositor \<Rightarrow> addr \<Rightarrow> Compositor option" where
  "link_top cmp w =
     do {
       c1 \<leftarrow> store cmp w (\<lambda>e. e\<lparr>w_prev := win_tail cmp, w_next := None\<rparr>);
       c2 \<leftarrow> (case win_tail c1 of
                Some t \<Rightarrow> store c1 t (\<lambda>e. e\<lparr>w_next := Some w\<rparr>)
              | None \<Rightarrow> Some (c1\<lparr>win_head := Some w\<rparr>));
       Some (c2\<lparr>win_tail := Some w\<rparr>)
     }"

definition link_above :: "Compositor \<Rightarrow> addr \<Rightarrow> addr \<Rightarrow> Compositor option" where
  "link_above cmp w below =
     do {
       b \<leftarrow> heap cmp below;
       c1 \<leftarrow> store cmp w (\<lambda>e. e\<lparr>w_prev := Some below, w_next := w_next b\<rparr>);
       b1 \<leftarrow> heap c1 below;
       c2 \<leftarrow> (case w_next b1 of
                Some n \<Rightarrow> store c1 n (\<lambda>e. e\<lparr>w_prev := Some w\<rparr>)
              | None \<Rightarrow> Some (c1\<lparr>win_tail := Some w\<rparr>));
       store c2 below (\<lambda>e. e\<lparr>w_next := Some w\<rparr>)
     }"

text \<open>
  \<open>add_win\<close>: \<open>alloc_ok\<close> tells whether \<open>calloc\<close> succeeds. The result is the new state
  and the returned pointer. Its block \<open>Link at tail (top of stack)\<close> is, statement for
  statement, the block \<open>Sibling not found, place at top\<close> of \<open>restack_win\<close>: \<open>link_top\<close>.
\<close>

definition add_win :: "Compositor \<Rightarrow> Window \<Rightarrow> bool \<Rightarrow> (Compositor \<times> addr option) option" where
  "add_win cmp xid alloc_ok =
     do {
       found \<leftarrow> find_win cmp xid;
       if found \<noteq> None then Some (cmp, None)
       else if xid = overlay cmp \<or> xid = root cmp then Some (cmp, None)
       else if \<not> alloc_ok then Some (cmp, None)
       else do {
         let w = heap_brk cmp;
         let c1 = cmp\<lparr>heap := (heap cmp)(w \<mapsto> calloc_WinEntry), heap_brk := Suc w\<rparr>;
         c2 \<leftarrow> store c1 w (\<lambda>e. e\<lparr>w_xid := xid\<rparr>);
         c3 \<leftarrow> link_top c2 w;
         Some (c3, Some w)
       }
     }"

definition restack_win :: "Compositor \<Rightarrow> addr option \<Rightarrow> Window \<Rightarrow> Compositor option" where
  "restack_win cmp wp above_xid =
     (case wp of
        None \<Rightarrow> Some cmp
      | Some w \<Rightarrow>
          do {
            c1 \<leftarrow> unlink cmp w;
            c2 \<leftarrow> store c1 w (\<lambda>e. e\<lparr>w_prev := None, w_next := None\<rparr>);
            if above_xid = 0 then link_bottom c2 w
            else do {
              below \<leftarrow> find_win c2 above_xid;
              (case below of
                 Some b \<Rightarrow> link_above c2 w b
               | None \<Rightarrow> link_top c2 w)
            }
          })"

section \<open>Event handlers\<close>

text \<open>
  The events \<open>handle_event\<close> dispatches on, with the fields the handlers read, and
  what the X server answers while one event is handled: whether \<open>calloc\<close> succeeds,
  the reply of \<open>XGetWindowAttributes\<close> in \<open>handle_map\<close> and in \<open>handle_reparent\<close>,
  the handle \<open>XDamageCreate\<close> returns, whether the error handler has set
  \<open>g_last_xerror\<close> by the following \<open>XSync\<close>, and the replies inside
  \<open>bind_window_pixmap\<close>.
\<close>

record XConfigureEvent =
  ev_window :: Window
  ev_x :: int
  ev_y :: int
  ev_width :: int
  ev_height :: int
  ev_border_width :: int
  ev_above :: Window

datatype XEvent =
    MapNotify Window
  | UnmapNotify Window
  | DestroyNotify Window
  | ConfigureNotify XConfigureEvent
  | ReparentNotify Window Window
  | CirculateNotify Window int
  | DamageNotify Window
  | OtherEvent

definition PlaceOnTop :: int where
  "PlaceOnTop = 0"

record replies =
  r_alloc_ok :: bool
  r_attr :: "XWindowAttributes option"
  r_reparent_attr :: "XWindowAttributes option"
  r_damage :: nat
  r_xerror :: bool
  r_bind :: bind_reply

definition handle_map :: "Compositor \<Rightarrow> replies \<Rightarrow> Window \<Rightarrow> Compositor option" where
  "handle_map cmp r window =
     do {
       found \<leftarrow> find_win cmp window;
       (c1, wp) \<leftarrow> (case found of
                      Some w \<Rightarrow> Some (cmp, Some w)
                    | None \<Rightarrow> add_win cmp window (r_alloc_ok r));
       (case wp of
          None \<Rightarrow> Some c1
        | Some w \<Rightarrow>
            (case r_attr r of
               None \<Rightarrow> remove_win c1 (Some w)
             | Some attr \<Rightarrow>
                 do {
                   c2 \<leftarrow> store c1 w (\<lambda>e. e\<lparr>w_x := at_x attr, w_y := at_y attr,
                                           w_width := at_width attr, w_height := at_height attr,
                                           w_border_width := at_border_width attr,
                                           w_override_redirect := at_override_redirect attr,
                                           w_mapped := True\<rparr>);
                   c3 \<leftarrow> store c2 w (\<lambda>e. if w_damage e = 0
                                          then e\<lparr>w_damage := (if r_xerror r then 0 else r_damage r)\<rparr>
                                          else e);
                   c4 \<leftarrow> store c3 w (bind_window_pixmap c3 (r_bind r));
                   Some (c4\<lparr>needs_redraw := True\<rparr>)
                 }))
     }"

definition handle_unmap :: "Compositor \<Rightarrow> Window \<Rightarrow> Compositor option" where
  "handle_unmap cmp window =
     do {
       found \<leftarrow> find_win cmp window;
       (case found of
          None \<Rightarrow> Some cmp
        | Some w \<Rightarrow>
            do {
              c1 \<leftarrow> store cmp w (\<lambda>e. e\<lparr>w_mapped := False\<rparr>);
              c2 \<leftarrow> store c1 w unbind_window_pixmap;
              c3 \<leftarrow> store c2 w (\<lambda>e. if w_damage e \<noteq> 0 then e\<lparr>w_damage := 0\<rparr> else e);
              Some (c3\<lparr>needs_redraw := True\<rparr>)
            })
     }"

definition handle_destroy :: "Compositor \<Rightarrow> Window \<Rightarrow> Compositor option" where
  "handle_destroy cmp window =
     do {
       found \<leftarrow> find_win cmp window;
       (case found of
          None \<Rightarrow> Some cmp
        | Some w \<Rightarrow>
            do {
              c1 \<leftarrow> remove_win cmp (Some w);
              Some (c1\<lparr>needs_redraw := True\<rparr>)
            })
     }"

definition handle_configure ::
    "Compositor \<Rightarrow> replies \<Rightarrow> XConfigureEvent \<Rightarrow> Compositor option" where
  "handle_configure cmp r ev =
     (if ev_window ev = root cmp then
        Some ((if ev_width ev \<noteq> root_width cmp \<or> ev_height ev \<noteq> root_height cmp
               then cmp\<lparr>root_width := ev_width ev, root_height := ev_height ev\<rparr>
               else cmp)\<lparr>needs_redraw := True\<rparr>)
      else
        do {
          found \<leftarrow> find_win cmp (ev_window ev);
          (case found of
             None \<Rightarrow> Some cmp
           | Some w \<Rightarrow>
               do {
                 e \<leftarrow> heap cmp w;
                 let resized = (w_width e \<noteq> ev_width ev \<or> w_height e \<noteq> ev_height ev);
                 c1 \<leftarrow> store cmp w (\<lambda>e. e\<lparr>w_x := ev_x ev, w_y := ev_y ev,
                                          w_width := ev_width ev, w_height := ev_height ev,
                                          w_border_width := ev_border_width ev\<rparr>);
                 c2 \<leftarrow> restack_win c1 (Some w) (ev_above ev);
                 e2 \<leftarrow> heap c2 w;
                 c3 \<leftarrow> (if resized \<and> w_mapped e2
                         then store c2 w (bind_window_pixmap c2 (r_bind r))
                         else Some c2);
                 Some (c3\<lparr>needs_redraw := True\<rparr>)
               })
        })"

definition handle_reparent ::
    "Compositor \<Rightarrow> replies \<Rightarrow> Window \<Rightarrow> Window \<Rightarrow> Compositor option" where
  "handle_reparent cmp r window parent =
     (if parent = root cmp then
        (case r_reparent_attr r of
           None \<Rightarrow> Some cmp
         | Some attr \<Rightarrow>
             if at_map_state attr = IsViewable then handle_map cmp r window else Some cmp)
      else
        do {
          found \<leftarrow> find_win cmp window;
          (case found of
             None \<Rightarrow> Some cmp
           | Some w \<Rightarrow>
               do {
                 c1 \<leftarrow> remove_win cmp (Some w);
                 Some (c1\<lparr>needs_redraw := True\<rparr>)
               })
        })"

definition handle_circulate :: "Compositor \<Rightarrow> Window \<Rightarrow> int \<Rightarrow> Compositor option" where
  "handle_circulate cmp window place =
     do {
       found \<leftarrow> find_win cmp window;
       (case found of
          None \<Rightarrow> Some cmp
        | Some w \<Rightarrow>
            do {
              c1 \<leftarrow> unlink cmp w;
              c2 \<leftarrow> store c1 w (\<lambda>e. e\<lparr>w_prev := None, w_next := None\<rparr>);
              c5 \<leftarrow> (if place = PlaceOnTop then
                        do {
                          c3 \<leftarrow> store c2 w (\<lambda>e. e\<lparr>w_prev := win_tail c2\<rparr>);
                          c4 \<leftarrow> (case win_tail c3 of
                                   Some t \<Rightarrow> store c3 t (\<lambda>e. e\<lparr>w_next := Some w\<rparr>)
                                 | None \<Rightarrow> Some (c3\<lparr>win_head := Some w\<rparr>));
                          Some (c4\<lparr>win_tail := Some w\<rparr>)
                        }
                      else
                        do {
                          c3 \<leftarrow> store c2 w (\<lambda>e. e\<lparr>w_next := win_head c2\<rparr>);
                          c4 \<leftarrow> (case win_head c3 of
                                   Some h \<Rightarrow> store c3 h (\<lambda>e. e\<lparr>w_prev := Some w\<rparr>)
                                 | None \<Rightarrow> Some (c3\<lparr>win_tail := Some w\<rparr>));
                          Some (c4\<lparr>win_head := Some w\<rparr>)
                        });
              Some (c5\<lparr>needs_redraw := True\<rparr>)
            })
     }"

definition handle_damage :: "Compositor \<Rightarrow> Window \<Rightarrow> Compositor option" where
  "handle_damage cmp drawable =
     do {
       found \<leftarrow> find_win cmp drawable;
       (case found of
          None \<Rightarrow> Some cmp
        | Some w \<Rightarrow>
            do {
              e \<leftarrow> heap cmp w;
              if w_damage e \<noteq> 0 then
                do {
                  c1 \<leftarrow> store cmp w (\<lambda>e. e\<lparr>w_damaged := True\<rparr>);
                  Some (c1\<lparr>needs_redraw := True\<rparr>)
                }
              else Some cmp
            })
     }"

fun handle_event :: "Compositor \<Rightarrow> XEvent \<times> replies \<Rightarrow> Compositor option" where
  "handle_event cmp (MapNotify window, r) = handle_map cmp r window"
| "handle_event cmp (UnmapNotify window, r) = handle_unmap cmp window"
| "handle_event cmp (DestroyNotify window, r) = handle_destroy cmp window"
| "handle_event cmp (ConfigureNotify ev, r) = handle_configure cmp r ev"
| "handle_event cmp (ReparentNotify window parent, r) = handle_reparent cmp r window parent"
| "handle_event cmp (CirculateNotify window place, r) = handle_circulate cmp window place"
| "handle_event cmp (DamageNotify drawable, r) = handle_damage cmp drawable"
| "handle_event cmp (OtherEvent, r) = Some cmp"

text \<open>The inner loop of \<open>main\<close> that drains the pending events, one call of \<open>handle_event\<close> each.\<close>

fun handle_events :: "Compositor \<Rightarrow> (XEvent \<times> replies) list \<Rightarrow> Compositor option" where
  "handle_events cmp [] = Some cmp"
| "handle_events cmp (ev # evs) =
     (case handle_event cmp ev of
        None \<Rightarrow> None
      | Some c1 \<Rightarrow> handle_events c1 evs)"

section \<open>Rendering: pass 1 of \<open>render_frame\<close>\<close>

text \<open>
  One \<open>glDrawArrays\<close> of pass 1: the texture bound to unit 0 and the viewport set for it.
\<close>

record draw =
  d_texture :: nat
  d_x :: int
  d_y :: int
  d_width :: int
  d_height :: int

definition draw_of :: "Compositor \<Rightarrow> WinEntry \<Rightarrow> draw" where
  "draw_of cmp w =
     \<lparr>d_texture = w_texture w, d_x = w_x w, d_y = root_height cmp - w_y w - w_height w,
      d_width = w_width w, d_height = w_height w\<rparr>"

text \<open>
  The \<open>for\<close> loop over the window list, from the entry \<open>p\<close> on: the draws it issues,
  in order, and the state it leaves (it clears \<open>damaged\<close> on the windows it draws).
\<close>

partial_function (option) composite_from ::
    "Compositor \<Rightarrow> addr option \<Rightarrow> (draw list \<times> Compositor) option" where
  "composite_from cmp p =
     (case p of
        None \<Rightarrow> Some ([], cmp)
      | Some a \<Rightarrow>
          (case heap cmp a of
             None \<Rightarrow> None
           | Some w \<Rightarrow>
               if \<not> w_mapped w \<or> \<not> w_pixmap_valid w then composite_from cmp (w_next w)
               else if w_width w \<le> 0 \<or> w_height w \<le> 0 then composite_from cmp (w_next w)
               else
                 let w1 = (if w_damaged w then w\<lparr>w_damaged := False\<rparr> else w);
                     c1 = cmp\<lparr>heap := (heap cmp)(a \<mapsto> w1)\<rparr>
                 in do {
                      (ds, c2) \<leftarrow> composite_from c1 (w_next w1);
                      Some (draw_of c1 w1 # ds, c2)
                    }))"

definition render_pass1 :: "Compositor \<Rightarrow> (draw list \<times> Compositor) option" where
  "render_pass1 cmp = composite_from cmp (win_head cmp)"

section \<open>Shader hot-reload\<close>

text \<open>
  What the file system and the GL answer during one \<open>reload_postproc_shader\<close>: the
  result of \<open>load_file\<close> (\<open>None\<close> for \<open>NULL\<close>), the names \<open>glCreateShader\<close> and
  \<open>glCreateProgram\<close> return, the compile and link status, and
  \<open>glGetUniformLocation\<close>. The GL state the function changes is the set of live
  program objects.
\<close>

record reload_reply =
  rl_source :: "string option"
  rl_shader :: nat
  rl_compile_ok :: bool
  rl_program :: nat
  rl_link_ok :: bool
  rl_uniform :: "nat \<Rightarrow> string \<Rightarrow> int"

definition compile_shader :: "reload_reply \<Rightarrow> nat" where
  "compile_shader r = (if \<not> rl_compile_ok r then 0 else rl_shader r)"

definition link_program :: "reload_reply \<Rightarrow> nat set \<Rightarrow> nat set \<times> nat" where
  "link_program r progs =
     (let progs1 = insert (rl_program r) progs in
      if \<not> rl_link_ok r then (progs1 - {rl_program r}, 0) else (progs1, rl_program r))"

definition reload_postproc_shader ::
    "reload_reply \<Rightarrow> nat set \<times> Compositor \<Rightarrow> nat set \<times> Compositor" where
  "reload_postproc_shader r st =
     (case st of (progs, cmp) \<Rightarrow>
        (case rl_source r of
           None \<Rightarrow> (progs, cmp)
         | Some frag_src \<Rightarrow>
             let frag = compile_shader r in
             if frag = 0 then (progs, cmp)
             else
               (case link_program r progs of (progs1, new_prog) \<Rightarrow>
                  if new_prog = 0 then (progs1, cmp)
                  else
                    (progs1 - {postproc_prog cmp},
                     cmp\<lparr>postproc_prog := new_prog,
                         u_screen_tex := rl_uniform r new_prog ''u_screen'',
                         u_resolution := rl_uniform r new_prog ''u_resolution'',
                         u_time := rl_uniform r new_prog ''u_time'',
                         params := map (\<lambda>p. p\<lparr>p_location := rl_uniform r new_prog (p_name p)\<rparr>)
                                       (params cmp)\<rparr>))))"

section \<open>Runtime shader parameters\<close>

text \<open>\<open>isspace\<close> in the C locale: space, and the controls from tab to carriage return.\<close>

definition isspace :: "char \<Rightarrow> bool" where
  "isspace ch = (ch \<in> set [CHR 0x20, CHR 0x09, CHR 0x0A, CHR 0x0B, CHR 0x0C, CHR 0x0D])"

text \<open>
  \<open>sscanf(line, "%63s %f", name, &value) == 2\<close>. The conversion \<open>%63s\<close> skips white
  space and takes up to 63 characters that are not white space; the directive made of
  a blank, and \<open>%f\<close> itself, skip white space; \<open>scan_f\<close> is the C library's \<open>%f\<close>
  conversion on the input that is left (\<open>None\<close> when no number matches there).
\<close>

definition sscanf_name_value ::
    "(string \<Rightarrow> 32 word option) \<Rightarrow> string \<Rightarrow> (string \<times> 32 word) option" where
  "sscanf_name_value scan_f line =
     (let s = dropWhile isspace line;
          name = take 63 (takeWhile (\<lambda>ch. \<not> isspace ch) s);
          rest = dropWhile isspace (drop (length name) s)
      in if name = [] then None
         else case scan_f rest of
                None \<Rightarrow> None
              | Some v \<Rightarrow> Some (name, v))"

text \<open>
  What the file system and the GL answer during one \<open>read_params\<close>: \<open>st_mtime\<close> of
  \<open>stat\<close> (\<open>None\<close> when \<open>stat\<close> fails), the strings the successive calls of \<open>fgets\<close>
  return until it returns \<open>NULL\<close> (\<open>None\<close> when \<open>fopen\<close> fails), and
  \<open>glGetUniformLocation\<close>.
\<close>

record params_reply =
  pr_stat :: "int option"
  pr_lines :: "string list option"
  pr_uniform :: "nat \<Rightarrow> string \<Rightarrow> int"

text \<open>The \<open>while\<close> loop of \<open>read_params\<close>, on the entries read so far.\<close>

fun read_lines ::
    "(string \<Rightarrow> 32 word option) \<Rightarrow> (string \<Rightarrow> int) \<Rightarrow> string list \<Rightarrow> param list \<Rightarrow> param list" where
  "read_lines scan_f loc [] ps = ps"
| "read_lines scan_f loc (line # rest) ps =
     (if length ps < MAX_PARAMS then
        (case sscanf_name_value scan_f line of
           Some (name, v) \<Rightarrow>
             read_lines scan_f loc rest
               (ps @ [\<lparr>p_name = take 63 name, p_value = v, p_location = loc name\<rparr>])
         | None \<Rightarrow> read_lines scan_f loc rest ps)
      else ps)"

definition read_params ::
    "(string \<Rightarrow> 32 word option) \<Rightarrow> params_reply \<Rightarrow> Compositor \<Rightarrow> Compositor" where
  "read_params scan_f r cmp =
     (case pr_stat r of
        None \<Rightarrow> cmp
      | Some mtime \<Rightarrow>
          if mtime = param_mtime cmp then cmp
          else
            let c1 = cmp\<lparr>param_mtime := mtime\<rparr> in
            (case pr_lines r of
               None \<Rightarrow> c1
             | Some lines \<Rightarrow>
                 c1\<lparr>params := read_lines scan_f (pr_uniform r (postproc_prog c1)) lines [],
                    needs_redraw := True\<rparr>))"

fun seg :: "(WinEntry \<Rightarrow> addr option) \<Rightarrow> (addr \<rightharpoonup> WinEntry) \<Rightarrow> addr option \<Rightarrow> addr list \<Rightarrow> addr option \<Rightarrow> bool" where
  "seg f h p [] q = (p = q)"
| "seg f h p (a # as) q =
     (p = Some a \<and> (case h a of None \<Rightarrow> False | Some e \<Rightarrow> seg f h (f e) as q))"

definition xid_at :: "(addr \<rightharpoonup> WinEntry) \<Rightarrow> addr \<Rightarrow> Window" where
  "xid_at h a = (case h a of None \<Rightarrow> 0 | Some e \<Rightarrow> w_xid e)"

definition dlist :: "Compositor \<Rightarrow> addr list \<Rightarrow> bool" where
  "dlist cmp as =
     (seg w_next (heap cmp) (win_head cmp) as None \<and>
      seg w_prev (heap cmp) (win_tail cmp) (rev as) None \<and> distinct as)"

definition payload :: "WinEntry \<Rightarrow> WinEntry" where
  "payload e = e\<lparr>w_next := None, w_prev := None\<rparr>"

definition others :: "Compositor \<Rightarrow> Compositor" where
  "others cmp = cmp\<lparr>heap := Map.empty, win_head := None, win_tail := None\<rparr>"

definition same_payload :: "Compositor \<Rightarrow> Compositor \<Rightarrow> bool" where
  "same_payload c c' = ((\<forall>a. map_option payload (heap c' a) = map_option payload (heap c a)) \<and> others c' = others c)"

fun insert_after :: "addr \<Rightarrow> addr \<Rightarrow> addr list \<Rightarrow> addr list" where
  "insert_after b w [] = [w]"
| "insert_after b w (a # as) = (if a = b then a # w # as else a # insert_after b w as)"

definition restack_order :: "(addr \<Rightarrow> Window) \<Rightarrow> addr list \<Rightarrow> addr \<Rightarrow> Window \<Rightarrow> addr list" where
  "restack_order g as w above_xid =
     (let ys = remove1 w as in
      if above_xid = 0 then w # ys
      else case find (\<lambda>a. g a = above_xid) ys of
             Some b \<Rightarrow> insert_after b w ys
           | None \<Rightarrow> ys @ [w])"

definition registry :: "Compositor \<Rightarrow> addr list \<Rightarrow> bool" where
  "registry cmp as =
     (dlist cmp as \<and> distinct (map (xid_at (heap cmp)) as) \<and>
      list_all (\<lambda>a. a < heap_brk cmp) as)"

definition bound_ok :: "WinEntry \<Rightarrow> bool" where
  "bound_ok e =
     (if w_pixmap_valid e
      then w_mapped e \<and> 0 < w_width e \<and> 0 < w_height e \<and> w_pixmap e \<noteq> 0 \<and> w_glx_pixmap e \<noteq> 0
      else w_pixmap e = 0 \<and> w_glx_pixmap e = 0 \<and> w_texture e = 0)"

definition entry_ok :: "Compositor \<Rightarrow> addr \<Rightarrow> bool" where
  "entry_ok cmp a = (case heap cmp a of None \<Rightarrow> False | Some e \<Rightarrow> bound_ok e)"

definition wf_state :: "Compositor \<Rightarrow> addr list \<Rightarrow> bool" where
  "wf_state cmp as = (registry cmp as \<and> list_all (entry_ok cmp) as)"

definition depth_usable :: "Compositor \<Rightarrow> int \<Rightarrow> bool" where
  "depth_usable cmp depth = (0 < depth \<and> depth < MAX_DEPTH \<and> tfp_available cmp depth)"

definition example_compositor :: Compositor where
  "example_compositor =
     \<lparr>root = 1, overlay = 2, root_width = 1920, root_height = 1080,
      tfp_format = (\<lambda>d. if d = 32 then 1 else 0),
      tfp_available = (\<lambda>d. d = 24 \<or> d = 32),
      postproc_prog = 3, u_screen_tex = 0, u_resolution = 1, u_time = 2,
      win_head = None, win_tail = None, params = [], param_mtime = 0,
      needs_redraw = False, heap = Map.empty, heap_brk = 0\<rparr>"

definition example_attr :: XWindowAttributes where
  "example_attr =
     \<lparr>at_x = 10, at_y = 20, at_width = 100, at_height = 50, at_border_width = 0,
      at_override_redirect = False, at_map_state = IsViewable, at_depth = 24\<rparr>"

definition example_bind_reply :: "nat \<Rightarrow> bind_reply" where
  "example_bind_reply n =
     \<lparr>b_attr = Some example_attr, b_pixmap = 200 + n, b_glx_pixmap = 300 + n,
      b_texture = 400 + n\<rparr>"

definition example_bound_window :: WinEntry where
  "example_bound_window =
     calloc_WinEntry\<lparr>w_xid := 5, w_pixmap := 205, w_glx_pixmap := 305, w_texture := 405,
                     w_width := 0, w_height := 50, w_mapped := True, w_pixmap_valid := True\<rparr>"

definition example_param :: param where
  "example_param = \<lparr>p_name = ''glitch'', p_value = 0x411E6666, p_location = 4\<rparr>"

definition example_scan_f :: "string \<Rightarrow> 32 word option" where
  "example_scan_f s =
     (if s = ''0.5'' @ [CHR 0x0A] then Some 0x3F000000
      else if s = ''1.2'' @ [CHR 0x0A] then Some 0x3F99999A
      else if s = ''9.9'' @ [CHR 0x0A] then Some 0x411E6666
      else None)"

definition example_uniform :: "nat \<Rightarrow> string \<Rightarrow> int" where
  "example_uniform prog name =
     (if name = ''u_screen'' then 0 else if name = ''u_resolution'' then 1
      else if name = ''u_time'' then 2 else if name = ''brightness'' then 3
      else if name = ''glitch'' then 4 else -1)"

lemma seg_append: "seg f h p (as @ bs) q = (\<exists>r. seg f h p as r \<and> seg f h r bs q)"
  by (induction as arbitrary: p) (auto split: option.splits)

lemma seg_cong:
  "(\<And>a. a \<in> set as \<Longrightarrow> map_option f (h' a) = map_option f (h a)) \<Longrightarrow>
   seg f h' p as q = seg f h p as q"
proof (induction as arbitrary: p)
  case Nil
  show ?case by simp
next
  case (Cons a as)
  have m: "map_option f (h' a) = map_option f (h a)" using Cons.prems by simp
  have ih: "\<And>p. seg f h' p as q = seg f h p as q" using Cons by simp
  show ?case using m by (cases "h a"; cases "h' a") (auto simp: ih)
qed

lemma seg_live: "seg f h p as q \<Longrightarrow> a \<in> set as \<Longrightarrow> \<exists>e. h a = Some e"
  by (induction as arbitrary: p) (auto split: option.splits)

lemma seg_start: "seg f h p as q \<Longrightarrow> p = (case as of [] \<Rightarrow> q | a # _ \<Rightarrow> Some a)"
  by (cases as) auto

lemma find_win_from_seg:
  "seg w_next h p as None \<Longrightarrow> find_win_from h p xid = Some (find (\<lambda>a. xid_at h a = xid) as)"
proof (induction as arbitrary: p)
  case Nil
  then show ?case by (simp add: find_win_from.simps)
next
  case (Cons a as)
  then show ?case
    by (subst find_win_from.simps) (auto simp: xid_at_def split: option.splits)
qed

lemma seg_mid:
  "seg f h p (bs @ w # cs) q \<Longrightarrow> h w = Some e \<Longrightarrow> f e = (case cs of [] \<Rightarrow> q | x # _ \<Rightarrow> Some x)"
  by (auto simp: seg_append dest: seg_start)

lemma store_Some: "heap c a = Some e \<Longrightarrow> store c a f = Some (c\<lparr>heap := (heap c)(a \<mapsto> f e)\<rparr>)"
  by (simp add: store_def)

lemma seg_upd_next_prev [simp]:
  "h a = Some e \<Longrightarrow> seg w_prev (h(a \<mapsto> e\<lparr>w_next := v\<rparr>)) p as q = seg w_prev h p as q"
  by (rule seg_cong) auto

lemma seg_upd_prev_next [simp]:
  "h a = Some e \<Longrightarrow> seg w_next (h(a \<mapsto> e\<lparr>w_prev := v\<rparr>)) p as q = seg w_next h p as q"
  by (rule seg_cong) auto

lemma seg_upd_notin [simp]:
  "a \<notin> set as \<Longrightarrow> seg f (h(a \<mapsto> e)) p as q = seg f h p as q"
  by (rule seg_cong) auto

text \<open>bypassing w in one direction\<close>
lemma seg_bypass_first:
  "seg f h p (w # cs) q \<Longrightarrow> h w = Some e \<Longrightarrow> seg f h (f e) cs q"
  by simp

lemma seg_bypass_upd:
  assumes "seg f h p (bs @ b # w # cs) q" "distinct (bs @ b # w # cs)"
    "h w = Some e" "h b = Some eb" "f eb' = f e"
  shows "seg f (h(b \<mapsto> eb')) p (bs @ b # cs) q"
  using assms by (auto simp: seg_append)

lemma unlink_dlist:
  assumes d: "dlist c (bs @ w # cs)"
  shows "\<exists>c'. unlink c w = Some c' \<and> dlist c' (bs @ cs) \<and> heap c' w = heap c w \<and>
     (\<forall>a. map_option payload (heap c' a) = map_option payload (heap c a)) \<and> others c' = others c"
proof -
  from d have nx: "seg w_next (heap c) (win_head c) (bs @ w # cs) None"
    and pv: "seg w_prev (heap c) (win_tail c) (rev cs @ w # rev bs) None"
    and dis: "distinct (bs @ w # cs)" by (auto simp: dlist_def)
  obtain e where e: "heap c w = Some e" using seg_live[OF nx, of w] by auto
  have en: "w_next e = (case cs of [] \<Rightarrow> None | x # _ \<Rightarrow> Some x)" using seg_mid[OF nx e] .
  have ep: "w_prev e = (case rev bs of [] \<Rightarrow> None | x # _ \<Rightarrow> Some x)" using seg_mid[OF pv e] .
  show ?thesis
  proof (cases bs rule: rev_cases)
    case Nil
    show ?thesis
    proof (cases cs)
      case Nil
      with \<open>bs = []\<close> e en ep nx pv show ?thesis
        by (auto simp: unlink_def dlist_def others_def)
    next
      case (Cons n cs')
      obtain en' where "heap c n = Some en'" using seg_live[OF nx, of n] Cons by auto
      with Cons \<open>bs = []\<close> e en ep nx pv dis show ?thesis
        by (auto simp: unlink_def dlist_def others_def store_def seg_append payload_def)
    qed
  next
    case (snoc bs' b)
    obtain eb where eb: "heap c b = Some eb" using seg_live[OF nx, of b] snoc by auto
    show ?thesis
    proof (cases cs)
      case Nil
      with snoc eb e en ep nx pv dis show ?thesis
        by (auto simp: unlink_def dlist_def others_def store_def seg_append payload_def)
    next
      case (Cons n cs')
      obtain en' where "heap c n = Some en'" using seg_live[OF nx, of n] Cons by auto
      with Cons snoc eb e en ep nx pv dis show ?thesis
        by (auto simp: unlink_def dlist_def others_def store_def seg_append payload_def)
    qed
  qed
qed

lemma link_bottom_dlist:
  assumes d: "dlist c as" and w: "w \<notin> set as" and e: "heap c w = Some e"
  shows "\<exists>c'. link_bottom c w = Some c' \<and> dlist c' (w # as) \<and> same_payload c c'"
proof (cases as)
  case Nil
  with d w e show ?thesis
    by (auto simp: link_bottom_def dlist_def others_def store_def payload_def same_payload_def)
next
  case (Cons a as')
  obtain ea where "heap c a = Some ea" using d Cons by (auto simp: dlist_def split: option.splits)
  with Cons d w e show ?thesis
    by (auto simp: link_bottom_def dlist_def others_def store_def payload_def seg_append same_payload_def)
qed

lemma link_top_dlist:
  assumes d: "dlist c as" and w: "w \<notin> set as" and e: "heap c w = Some e"
  shows "\<exists>c'. link_top c w = Some c' \<and> dlist c' (as @ [w]) \<and> same_payload c c'"
proof (cases as rule: rev_cases)
  case Nil
  with d w e show ?thesis
    by (auto simp: link_top_def dlist_def others_def store_def payload_def same_payload_def)
next
  case (snoc as' a)
  obtain ea where "heap c a = Some ea" using d snoc by (auto simp: dlist_def split: option.splits)
  with snoc d w e show ?thesis
    by (auto simp: link_top_def dlist_def others_def store_def payload_def seg_append same_payload_def)
qed

lemma link_above_dlist:
  assumes d: "dlist c (bs @ b # cs)" and w: "w \<notin> set (bs @ b # cs)" and e: "heap c w = Some e"
  shows "\<exists>c'. link_above c w b = Some c' \<and> dlist c' (bs @ b # w # cs) \<and> same_payload c c'"
proof -
  from d have nx: "seg w_next (heap c) (win_head c) (bs @ b # cs) None"
    and pv: "seg w_prev (heap c) (win_tail c) (rev cs @ b # rev bs) None"
    and dis: "distinct (bs @ b # cs)" by (auto simp: dlist_def)
  obtain eb where eb: "heap c b = Some eb" using seg_live[OF nx, of b] by auto
  have en: "w_next eb = (case cs of [] \<Rightarrow> None | x # _ \<Rightarrow> Some x)" using seg_mid[OF nx eb] .
  show ?thesis
  proof (cases cs)
    case Nil
    with eb e en nx pv dis w show ?thesis
      by (auto simp: link_above_def dlist_def others_def store_def seg_append payload_def same_payload_def)
  next
    case (Cons n cs')
    obtain en' where "heap c n = Some en'" using seg_live[OF nx, of n] Cons by auto
    with Cons eb e en nx pv dis w show ?thesis
      by (auto simp: link_above_def dlist_def others_def store_def seg_append payload_def same_payload_def)
  qed
qed

lemma same_payload_refl [simp]: "same_payload c c"
  by (simp add: same_payload_def)

lemma same_payload_trans: "same_payload c c1 \<Longrightarrow> same_payload c1 c2 \<Longrightarrow> same_payload c c2"
  by (simp add: same_payload_def)

lemma same_payload_xid: "same_payload c c' \<Longrightarrow> xid_at (heap c') a = xid_at (heap c) a"
proof -
  assume "same_payload c c'"
  then have "map_option payload (heap c' a) = map_option payload (heap c a)"
    by (simp add: same_payload_def)
  then have "map_option (\<lambda>e. w_xid (payload e)) (heap c' a) = map_option (\<lambda>e. w_xid (payload e)) (heap c a)"
    by (cases "heap c a"; cases "heap c' a") auto
  then show ?thesis
    by (cases "heap c a"; cases "heap c' a") (auto simp: xid_at_def payload_def)
qed

lemma same_payload_brk: "same_payload c c' \<Longrightarrow> heap_brk c' = heap_brk c"
proof -
  assume "same_payload c c'"
  then have "heap_brk (others c') = heap_brk (others c)" by (simp add: same_payload_def)
  then show ?thesis by (simp add: others_def)
qed

lemma insert_after_split:
  "b \<notin> set bs \<Longrightarrow> insert_after b w (bs @ b # cs) = bs @ b # w # cs"
  by (induction bs) auto

lemma dlist_set_links:
  assumes "dlist c as" "w \<notin> set as" "heap c w = Some e"
  shows "dlist (c\<lparr>heap := (heap c)(w \<mapsto> e')\<rparr>) as"
  using assms by (simp add: dlist_def)

lemma store_links_same_payload:
  assumes "heap c w = Some e" "payload (f e) = payload e"
  shows "same_payload c (c\<lparr>heap := (heap c)(w \<mapsto> f e)\<rparr>)"
  using assms by (simp add: same_payload_def others_def)

lemma find_win_dlist:
  "dlist c as \<Longrightarrow> find_win c xid = Some (find (\<lambda>a. xid_at (heap c) a = xid) as)"
  by (simp add: find_win_def dlist_def find_win_from_seg)

lemma restack_win_dlist:
  assumes d: "dlist c as" and w: "w \<in> set as"
  shows "\<exists>c'. restack_win c (Some w) above_xid = Some c' \<and>
           dlist c' (restack_order (xid_at (heap c)) as w above_xid) \<and> same_payload c c'"
proof -
  from w obtain bs cs where as: "as = bs @ w # cs" by (auto simp: in_set_conv_decomp)
  have dis: "distinct as" using d by (simp add: dlist_def)
  have rm: "remove1 w as = bs @ cs" using dis as by (simp add: remove1_append)
  have wn: "w \<notin> set (bs @ cs)" using dis as by auto
  from unlink_dlist[of c bs w cs] d as obtain c1 where
    u: "unlink c w = Some c1" and d1: "dlist c1 (bs @ cs)" and hw: "heap c1 w = heap c w"
    and sp1: "same_payload c c1" by (auto simp: same_payload_def)
  obtain e where e: "heap c w = Some e" using d w seg_live[of w_next "heap c" "win_head c" as None w]
    by (auto simp: dlist_def)
  define c2 where "c2 = c1\<lparr>heap := (heap c1)(w \<mapsto> e\<lparr>w_prev := None, w_next := None\<rparr>)\<rparr>"
  have s2: "store c1 w (\<lambda>e. e\<lparr>w_prev := None, w_next := None\<rparr>) = Some c2"
    using e hw by (simp add: store_def c2_def)
  have d2: "dlist c2 (bs @ cs)" unfolding c2_def using d1 wn e hw by (intro dlist_set_links) auto
  have sp2: "same_payload c c2"
    using sp1 e hw by (auto simp: c2_def same_payload_def others_def payload_def)
  have e2: "heap c2 w = Some (e\<lparr>w_prev := None, w_next := None\<rparr>)" by (simp add: c2_def)
  have xid2: "\<And>a. xid_at (heap c2) a = xid_at (heap c) a" using same_payload_xid[OF sp2] .
  show ?thesis
  proof (cases "above_xid = 0")
    case True
    from link_bottom_dlist[OF d2 wn e2] obtain c3 where
      "link_bottom c2 w = Some c3" "dlist c3 (w # bs @ cs)" "same_payload c2 c3" by auto
    with True u s2 rm sp2 show ?thesis
      by (auto simp: restack_win_def restack_order_def intro: same_payload_trans)
  next
    case False
    have fw: "find_win c2 above_xid = Some (find (\<lambda>a. xid_at (heap c) a = above_xid) (bs @ cs))"
      using find_win_dlist[OF d2] by (simp add: xid2)
    show ?thesis
    proof (cases "find (\<lambda>a. xid_at (heap c) a = above_xid) (bs @ cs)")
      case None
      from link_top_dlist[OF d2 wn e2] obtain c3 where
        "link_top c2 w = Some c3" "dlist c3 ((bs @ cs) @ [w])" "same_payload c2 c3" by auto
      with False None fw u s2 rm sp2 show ?thesis
        by (auto simp: restack_win_def restack_order_def intro: same_payload_trans)
    next
      case (Some b)
      then have "b \<in> set (bs @ cs)" by (metis find_Some_iff nth_mem)
      then obtain ps qs where sp: "bs @ cs = ps @ b # qs" and bn: "b \<notin> set ps"
        using split_list_first[of b "bs @ cs"] by blast
      have d2': "dlist c2 (ps @ b # qs)" and wn': "w \<notin> set (ps @ b # qs)"
        using d2 wn sp by simp_all
      from link_above_dlist[OF d2' wn' e2] obtain c3 where
        "link_above c2 w b = Some c3" "dlist c3 (ps @ b # w # qs)" "same_payload c2 c3" by auto
      with False Some fw u s2 rm sp2 sp bn show ?thesis
        by (auto simp: restack_win_def restack_order_def insert_after_split intro: same_payload_trans)
    qed
  qed
qed

lemma registry_upd:
  assumes r: "registry c as" and e: "heap c w = Some e"
    and l: "w_next e' = w_next e" "w_prev e' = w_prev e" "w_xid e' = w_xid e"
  shows "registry (c\<lparr>heap := (heap c)(w \<mapsto> e')\<rparr>) as"
proof -
  have n: "seg w_next ((heap c)(w \<mapsto> e')) (win_head c) as None = seg w_next (heap c) (win_head c) as None"
    by (rule seg_cong) (use e l in auto)
  have p: "seg w_prev ((heap c)(w \<mapsto> e')) (win_tail c) (rev as) None = seg w_prev (heap c) (win_tail c) (rev as) None"
    by (rule seg_cong) (use e l in auto)
  have x: "xid_at ((heap c)(w \<mapsto> e')) = xid_at (heap c)"
    using e l by (auto simp: xid_at_def fun_eq_iff)
  show ?thesis using r n p x by (simp add: registry_def dlist_def)
qed

lemma registry_same_payload:
  assumes r: "registry c as" and d: "dlist c' as'" and s: "set as' = set as"
    and sp: "same_payload c c'"
  shows "registry c' as'"
proof -
  have x: "xid_at (heap c') = xid_at (heap c)" using same_payload_xid[OF sp] by (simp add: fun_eq_iff)
  have "inj_on (xid_at (heap c)) (set as)" using r by (simp add: registry_def distinct_map)
  moreover have "distinct as'" using d by (simp add: dlist_def)
  ultimately have "distinct (map (xid_at (heap c')) as')" using s x by (simp add: distinct_map)
  moreover have "list_all (\<lambda>a. a < heap_brk c') as'"
    using r s same_payload_brk[OF sp] by (simp add: registry_def list_all_iff)
  ultimately show ?thesis using d by (simp add: registry_def)
qed

lemma registry_live: "registry c as \<Longrightarrow> a \<in> set as \<Longrightarrow> \<exists>e. heap c a = Some e"
  using seg_live[of w_next "heap c" "win_head c" as None a] by (auto simp: registry_def dlist_def)

lemma find_win_registry:
  "registry c as \<Longrightarrow> find_win c xid = Some (find (\<lambda>a. xid_at (heap c) a = xid) as)"
  by (simp add: registry_def find_win_dlist)

lemma restack_order_set: "w \<in> set as \<Longrightarrow> set (restack_order g as w above_xid) = set as"
proof -
  have ia: "\<And>b ys. set (insert_after b w ys) = insert w (set ys)"
  proof -
    fix b ys show "set (insert_after b w ys) = insert w (set ys)" by (induction ys) auto
  qed
  assume "w \<in> set as"
  then have "insert w (set (remove1 w as)) = set as"
    by (induction as) auto
  then show ?thesis
    by (auto simp: restack_order_def ia Let_def split: option.splits)
qed

lemma restack_win_registry:
  assumes r: "registry c as" and w: "w \<in> set as"
  shows "\<exists>c'. restack_win c (Some w) above_xid = Some c' \<and>
           registry c' (restack_order (xid_at (heap c)) as w above_xid) \<and> same_payload c c'"
proof -
  have d: "dlist c as" using r by (simp add: registry_def)
  from restack_win_dlist[OF d w, of above_xid] obtain c' where
    a: "restack_win c (Some w) above_xid = Some c'"
    and b: "dlist c' (restack_order (xid_at (heap c)) as w above_xid)"
    and s: "same_payload c c'" by auto
  have "registry c' (restack_order (xid_at (heap c)) as w above_xid)"
    using registry_same_payload[OF r b restack_order_set[OF w] s] .
  with a s show ?thesis by simp
qed

lemma find_None_xid:
  "(find (\<lambda>a. g a = xid) as = None) = (xid \<notin> set (map g as))"
  by (auto simp: find_None_iff)

lemma add_win_tracked:
  assumes r: "registry c as" and x: "xid \<in> set (map (xid_at (heap c)) as)"
  shows "add_win c xid ok = Some (c, None)"
proof -
  have "find (\<lambda>a. xid_at (heap c) a = xid) as \<noteq> None" using x by (simp add: find_None_xid)
  then show ?thesis using find_win_registry[OF r, of xid] by (auto simp: add_win_def)
qed

lemma add_win_refused:
  assumes r: "registry c as" and x: "xid = overlay c \<or> xid = root c \<or> \<not> ok"
  shows "add_win c xid ok = Some (c, None)"
  using find_win_registry[OF r, of xid] x by (auto simp: add_win_def)

lemma add_win_new:
  assumes r: "registry c as" and x: "xid \<notin> set (map (xid_at (heap c)) as)"
    and o: "xid \<noteq> overlay c" "xid \<noteq> root c" "ok"
  shows "\<exists>c'. add_win c xid ok = Some (c', Some (heap_brk c)) \<and>
           registry c' (as @ [heap_brk c]) \<and>
           heap c' (heap_brk c) =
             Some (calloc_WinEntry\<lparr>w_xid := xid, w_prev := win_tail c, w_next := None\<rparr>) \<and>
           (\<forall>a\<in>set as. map_option payload (heap c' a) = map_option payload (heap c a)) \<and>
           others c' = others (c\<lparr>heap_brk := Suc (heap_brk c)\<rparr>)"
proof -
  define w where "w = heap_brk c"
  define c2 where "c2 = c\<lparr>heap_brk := Suc w, heap := (heap c)(w \<mapsto> calloc_WinEntry\<lparr>w_xid := xid\<rparr>)\<rparr>"
  have wn: "w \<notin> set as" using r by (auto simp: registry_def list_all_iff w_def)
  have fw: "find_win c xid = Some None"
    using find_win_registry[OF r, of xid] x by (simp add: find_None_xid)
  have d: "dlist c as" using r by (simp add: registry_def)
  have d2: "dlist c2 as" using d wn by (simp add: dlist_def c2_def)
  have e2: "heap c2 w = Some (calloc_WinEntry\<lparr>w_xid := xid\<rparr>)" by (simp add: c2_def)
  from link_top_dlist[OF d2 wn e2] obtain c3 where
    l: "link_top c2 w = Some c3" and d3: "dlist c3 (as @ [w])" and sp: "same_payload c2 c3" by auto
  have aw: "add_win c xid ok = Some (c3, Some w)"
    using fw o l unfolding c2_def by (simp add: add_win_def w_def[symmetric] store_def Let_def)
  have xs: "\<And>a. xid_at (heap c3) a = xid_at (heap c2) a" using same_payload_xid[OF sp] .
  have x2: "\<And>a. a \<in> set as \<Longrightarrow> xid_at (heap c2) a = xid_at (heap c) a"
    using wn by (auto simp: xid_at_def c2_def)
  have xw: "xid_at (heap c2) w = xid" by (simp add: xid_at_def c2_def)
  have dx: "distinct (map (xid_at (heap c3)) (as @ [w]))"
  proof -
    have m: "map (xid_at (heap c3)) as = map (xid_at (heap c)) as" using xs x2 by simp
    have dd: "distinct (map (xid_at (heap c)) as)" using r by (simp add: registry_def)
    have xw3: "xid_at (heap c3) w = xid" using xs xw by simp
    show ?thesis using x by (simp add: m dd xw3)
  qed
  have b: "heap_brk c3 = Suc w" using same_payload_brk[OF sp] by (simp add: c2_def)
  have la: "list_all (\<lambda>a. a < heap_brk c3) (as @ [w])"
    using r b by (auto simp: registry_def list_all_iff w_def)
  have reg: "registry c3 (as @ [w])" using d3 dx la by (simp add: registry_def)
  have pl: "\<forall>a\<in>set as. map_option payload (heap c3 a) = map_option payload (heap c a)"
    using sp wn by (auto simp: same_payload_def c2_def)
  have ot: "others c3 = others (c\<lparr>heap_brk := Suc (heap_brk c)\<rparr>)"
    using sp by (simp add: same_payload_def c2_def others_def w_def)
  have hw: "heap c3 w = Some (calloc_WinEntry\<lparr>w_xid := xid, w_prev := win_tail c, w_next := None\<rparr>)"
  proof -
    obtain e3 where e3: "heap c3 w = Some e3" using registry_live[OF reg, of w] by auto
    have "map_option payload (heap c3 w) = map_option payload (heap c2 w)"
      using sp by (simp add: same_payload_def)
    then have p3: "payload e3 = payload (calloc_WinEntry\<lparr>w_xid := xid\<rparr>)" using e3 e2 by simp
    have n3: "w_next e3 = None" using d3 e3 seg_mid[of w_next "heap c3" "win_head c3" as w "[]" None e3]
      by (simp add: dlist_def)
    have "seg w_prev (heap c3) (win_tail c3) ([] @ w # rev as) None" using d3 by (simp add: dlist_def)
    from seg_mid[OF this e3] have p3': "w_prev e3 = (case rev as of [] \<Rightarrow> None | x # _ \<Rightarrow> Some x)" .
    have "seg w_prev (heap c) (win_tail c) (rev as) None" using d by (simp add: dlist_def)
    from seg_start[OF this] have "win_tail c = (case rev as of [] \<Rightarrow> None | x # _ \<Rightarrow> Some x)" .
    with p3' have pv: "w_prev e3 = win_tail c" by simp
    have "e3 = calloc_WinEntry\<lparr>w_xid := xid, w_prev := win_tail c, w_next := None\<rparr>"
      using p3 n3 pv by (cases e3) (simp add: payload_def calloc_WinEntry_def)
    then show ?thesis using e3 by simp
  qed
  show ?thesis using aw reg hw pl ot by (auto simp: w_def)
qed

lemma remove1_split: "distinct (bs @ w # cs) \<Longrightarrow> remove1 w (bs @ w # cs) = bs @ cs"
  by (simp add: remove1_append)

lemma remove_win_registry:
  assumes r: "registry c as" and w: "w \<in> set as"
  shows "\<exists>c'. remove_win c (Some w) = Some c' \<and> registry c' (remove1 w as) \<and>
           (\<forall>a. a \<noteq> w \<longrightarrow> map_option payload (heap c' a) = map_option payload (heap c a)) \<and>
           heap c' w = None \<and> others c' = others c"
proof -
  from w obtain bs cs where as: "as = bs @ w # cs" by (auto simp: in_set_conv_decomp)
  have dis: "distinct as" using r by (simp add: registry_def dlist_def)
  have rm: "remove1 w as = bs @ cs" using dis as remove1_split by simp
  have wn: "w \<notin> set (bs @ cs)" using dis as by auto
  obtain e where e: "heap c w = Some e" using registry_live[OF r w] by auto
  define e2 where "e2 = unbind_window_pixmap (if w_damage e \<noteq> 0 then e\<lparr>w_damage := 0\<rparr> else e)"
  define c2 where "c2 = c\<lparr>heap := (heap c)(w \<mapsto> e2)\<rparr>"
  have l2: "w_next e2 = w_next e" "w_prev e2 = w_prev e" "w_xid e2 = w_xid e"
    by (auto simp: e2_def unbind_window_pixmap_def)
  have r2: "registry c2 as" unfolding c2_def using registry_upd[OF r e l2] .
  define c1 where "c1 = c\<lparr>heap := (heap c)(w \<mapsto> (if w_damage e \<noteq> 0 then e\<lparr>w_damage := 0\<rparr> else e))\<rparr>"
  have s1: "store c w (\<lambda>e. if w_damage e \<noteq> 0 then e\<lparr>w_damage := 0\<rparr> else e) = Some c1"
    using e by (simp add: store_def c1_def)
  have s2: "store c1 w unbind_window_pixmap = Some c2"
    by (simp add: store_def c1_def c2_def e2_def)
  have d2: "dlist c2 (bs @ w # cs)" using r2 as by (simp add: registry_def)
  from unlink_dlist[OF d2] obtain c3 where
    u: "unlink c2 w = Some c3" and d3: "dlist c3 (bs @ cs)"
    and p3: "\<forall>a. map_option payload (heap c3 a) = map_option payload (heap c2 a)"
    and o3: "others c3 = others c2" by auto
  define c4 where "c4 = c3\<lparr>heap := (heap c3)(w := None)\<rparr>"
  have rw: "remove_win c (Some w) = Some c4" using s1 s2 u by (simp add: remove_win_def c4_def)
  have d4: "dlist c4 (bs @ cs)"
  proof -
    have "seg f ((heap c3)(w := None)) p (bs @ cs) q = seg f (heap c3) p (bs @ cs) q" for f p q
      by (rule seg_cong) (use wn in auto)
    then have "seg f ((heap c3)(w := None)) p (rev (bs @ cs)) q = seg f (heap c3) p (rev (bs @ cs)) q" for f p q
      by (intro seg_cong) (use wn in auto)
    moreover have "seg f ((heap c3)(w := None)) p (bs @ cs) q = seg f (heap c3) p (bs @ cs) q" for f p q
      by (rule seg_cong) (use wn in auto)
    ultimately show ?thesis using d3 by (simp add: dlist_def c4_def del: rev_append)
  qed
  have pl: "\<forall>a. a \<noteq> w \<longrightarrow> map_option payload (heap c4 a) = map_option payload (heap c a)"
    using p3 by (simp add: c4_def c2_def)
  have xs: "\<And>a. a \<noteq> w \<Longrightarrow> xid_at (heap c4) a = xid_at (heap c) a"
  proof -
    fix a assume "a \<noteq> w"
    then have m: "map_option payload (heap c4 a) = map_option payload (heap c a)" using pl by simp
    then have "map_option (\<lambda>e. w_xid (payload e)) (heap c4 a) = map_option (\<lambda>e. w_xid (payload e)) (heap c a)"
      by (cases "heap c a"; cases "heap c4 a") auto
    then show "xid_at (heap c4) a = xid_at (heap c) a"
      by (cases "heap c a"; cases "heap c4 a") (auto simp: xid_at_def payload_def)
  qed
  have m: "map (xid_at (heap c4)) (bs @ cs) = map (xid_at (heap c)) (bs @ cs)"
  proof (rule map_cong[OF refl])
    fix a assume "a \<in> set (bs @ cs)"
    then have "a \<noteq> w" using wn by blast
    then show "xid_at (heap c4) a = xid_at (heap c) a" by (rule xs)
  qed
  have dx0: "distinct (map (xid_at (heap c)) (bs @ w # cs))" using r as by (simp add: registry_def)
  have dx: "distinct (map (xid_at (heap c4)) (bs @ cs))" unfolding m using dx0 by auto
  have ot: "others c4 = others c" using o3 by (simp add: c4_def c2_def others_def)
  have bk: "heap_brk c4 = heap_brk c"
  proof -
    have "heap_brk (others c4) = heap_brk (others c)" using ot by simp
    then show ?thesis by (simp add: others_def)
  qed
  have la: "list_all (\<lambda>a. a < heap_brk c4) (bs @ cs)"
    using r as bk by (auto simp: registry_def list_all_iff)
  have "registry c4 (bs @ cs)" using d4 dx la by (simp add: registry_def)
  moreover have "heap c4 w = None" by (simp add: c4_def)
  ultimately show ?thesis using rw rm pl ot by auto
qed

lemma entry_ok_payload:
  assumes "map_option payload (heap c' a) = map_option payload (heap c a)"
  shows "entry_ok c' a = entry_ok c a"
proof -
  have b: "bound_ok e = bound_ok (payload e)" for e by (simp add: bound_ok_def payload_def)
  from assms have "map_option (\<lambda>e. bound_ok (payload e)) (heap c' a) = map_option (\<lambda>e. bound_ok (payload e)) (heap c a)"
    by (cases "heap c a"; cases "heap c' a") auto
  then show ?thesis
    by (cases "heap c a"; cases "heap c' a") (auto simp: entry_ok_def b[symmetric])
qed

lemma wf_state_same_payload:
  assumes "wf_state c as" "registry c' as'" "set as' \<subseteq> set as"
    "\<And>a. a \<in> set as' \<Longrightarrow> map_option payload (heap c' a) = map_option payload (heap c a)"
  shows "wf_state c' as'"
proof -
  have "entry_ok c' a" if "a \<in> set as'" for a
  proof -
    have "entry_ok c a" using assms(1,3) that by (auto simp: wf_state_def list_all_iff)
    then show ?thesis using entry_ok_payload[OF assms(4)[OF that]] by simp
  qed
  then show ?thesis using assms(2) by (simp add: wf_state_def list_all_iff)
qed

lemma wf_state_upd:
  assumes wf: "wf_state c as" and e: "heap c w = Some e"
    and l: "w_next e' = w_next e" "w_prev e' = w_prev e" "w_xid e' = w_xid e"
    and ok: "bound_ok e'"
  shows "wf_state (c\<lparr>heap := (heap c)(w \<mapsto> e')\<rparr>) as"
proof -
  have "registry (c\<lparr>heap := (heap c)(w \<mapsto> e')\<rparr>) as"
    using registry_upd[OF _ e l] wf by (simp add: wf_state_def)
  moreover have "list_all (entry_ok (c\<lparr>heap := (heap c)(w \<mapsto> e')\<rparr>)) as"
    using wf ok by (auto simp: wf_state_def list_all_iff entry_ok_def)
  ultimately show ?thesis by (simp add: wf_state_def)
qed

lemma wf_state_others:
  assumes "wf_state c as" "heap c' = heap c" "win_head c' = win_head c" "win_tail c' = win_tail c"
    "heap_brk c' = heap_brk c"
  shows "wf_state c' as"
proof -
  have "entry_ok c' = entry_ok c" using assms(2) by (simp add: entry_ok_def fun_eq_iff)
  then show ?thesis using assms by (simp add: wf_state_def registry_def dlist_def)
qed

lemma bound_ok_unbind: "bound_ok e \<Longrightarrow> bound_ok (unbind_window_pixmap e)"
  by (simp add: bound_ok_def unbind_window_pixmap_def)

lemma bound_ok_bind:
  assumes "\<not> w_pixmap_valid e \<longrightarrow> w_pixmap e = 0 \<and> w_glx_pixmap e = 0 \<and> w_texture e = 0"
  shows "bound_ok (bind_window_pixmap c r e)"
  using assms
  by (auto simp: bound_ok_def bind_window_pixmap_def unbind_window_pixmap_def Let_def
           split: option.splits)

lemma bind_links:
  "w_next (bind_window_pixmap c r e) = w_next e"
  "w_prev (bind_window_pixmap c r e) = w_prev e"
  "w_xid (bind_window_pixmap c r e) = w_xid e"
  by (auto simp: bind_window_pixmap_def unbind_window_pixmap_def Let_def split: option.splits)

lemma find_Some_mem: "find P as = Some w \<Longrightarrow> w \<in> set as"
  by (metis find_Some_iff nth_mem)

lemma wf_state_live: "wf_state c as \<Longrightarrow> w \<in> set as \<Longrightarrow> \<exists>e. heap c w = Some e \<and> bound_ok e"
  by (auto simp: wf_state_def list_all_iff entry_ok_def split: option.splits)

lemma wf_find_win:
  "wf_state c as \<Longrightarrow> find_win c xid = Some (find (\<lambda>a. xid_at (heap c) a = xid) as)"
  by (simp add: wf_state_def find_win_registry)

lemma wf_redraw: "wf_state c as \<Longrightarrow> wf_state (c\<lparr>needs_redraw := True\<rparr>) as"
  by (rule wf_state_others) simp_all

lemma handle_unmap_wf:
  assumes wf: "wf_state c as"
  shows "\<exists>c'. handle_unmap c window = Some c' \<and> wf_state c' as"
proof (cases "find (\<lambda>a. xid_at (heap c) a = window) as")
  case None
  then show ?thesis using wf wf_find_win[OF wf, of window] by (simp add: handle_unmap_def)
next
  case (Some w)
  then have w: "w \<in> set as" by (rule find_Some_mem)
  obtain e where e: "heap c w = Some e" and ok: "bound_ok e" using wf_state_live[OF wf w] by auto
  define e3 where "e3 = (\<lambda>e. if w_damage e \<noteq> 0 then e\<lparr>w_damage := 0\<rparr> else e)
                          (unbind_window_pixmap (e\<lparr>w_mapped := False\<rparr>))"
  have l: "w_next e3 = w_next e" "w_prev e3 = w_prev e" "w_xid e3 = w_xid e"
    by (auto simp: e3_def unbind_window_pixmap_def)
  have b: "bound_ok e3" using ok by (auto simp: e3_def bound_ok_def unbind_window_pixmap_def)
  have "handle_unmap c window = Some (c\<lparr>heap := (heap c)(w \<mapsto> e3), needs_redraw := True\<rparr>)"
    using Some wf_find_win[OF wf, of window] e
    by (simp add: handle_unmap_def store_def e3_def)
  moreover have "wf_state (c\<lparr>heap := (heap c)(w \<mapsto> e3), needs_redraw := True\<rparr>) as"
    using wf_redraw[OF wf_state_upd[OF wf e l b]] by simp
  ultimately show ?thesis by simp
qed

lemma handle_damage_wf:
  assumes wf: "wf_state c as"
  shows "\<exists>c'. handle_damage c drawable = Some c' \<and> wf_state c' as"
proof (cases "find (\<lambda>a. xid_at (heap c) a = drawable) as")
  case None
  then show ?thesis using wf wf_find_win[OF wf, of drawable] by (simp add: handle_damage_def)
next
  case (Some w)
  then have w: "w \<in> set as" by (rule find_Some_mem)
  obtain e where e: "heap c w = Some e" and ok: "bound_ok e" using wf_state_live[OF wf w] by auto
  have b: "bound_ok (e\<lparr>w_damaged := True\<rparr>)" using ok by (simp add: bound_ok_def)
  have "wf_state (c\<lparr>heap := (heap c)(w \<mapsto> e\<lparr>w_damaged := True\<rparr>), needs_redraw := True\<rparr>) as"
    using wf_redraw[OF wf_state_upd[OF wf e _ _ _ b]] by simp
  then show ?thesis
    using Some wf_find_win[OF wf, of drawable] e wf
    by (auto simp: handle_damage_def store_def)
qed

lemma remove_win_wf:
  assumes wf: "wf_state c as" and w: "w \<in> set as"
  shows "\<exists>c'. remove_win c (Some w) = Some c' \<and> wf_state c' (remove1 w as)"
proof -
  have r: "registry c as" using wf by (simp add: wf_state_def)
  from remove_win_registry[OF r w] obtain c' where
    a: "remove_win c (Some w) = Some c'" and b: "registry c' (remove1 w as)"
    and p: "\<forall>a. a \<noteq> w \<longrightarrow> map_option payload (heap c' a) = map_option payload (heap c a)" by auto
  have dis: "distinct as" using r by (simp add: registry_def dlist_def)
  have "wf_state c' (remove1 w as)"
  proof (rule wf_state_same_payload[OF wf b])
    show "set (remove1 w as) \<subseteq> set as" by (rule set_remove1_subset)
  next
    fix a assume "a \<in> set (remove1 w as)"
    then have "a \<noteq> w" using dis by auto
    then show "map_option payload (heap c' a) = map_option payload (heap c a)" using p by simp
  qed
  with a show ?thesis by simp
qed

lemma handle_destroy_wf:
  assumes wf: "wf_state c as"
  shows "\<exists>c' as'. handle_destroy c window = Some c' \<and> wf_state c' as'"
proof (cases "find (\<lambda>a. xid_at (heap c) a = window) as")
  case None
  then show ?thesis using wf wf_find_win[OF wf, of window] by (auto simp: handle_destroy_def)
next
  case (Some w)
  then have w: "w \<in> set as" by (rule find_Some_mem)
  from remove_win_wf[OF wf w] obtain c1 where
    "remove_win c (Some w) = Some c1" "wf_state c1 (remove1 w as)" by auto
  then show ?thesis
    using Some wf_find_win[OF wf, of window] wf_redraw[of c1 "remove1 w as"]
    by (auto simp: handle_destroy_def)
qed

lemma handle_map_tail_wf:
  assumes wf: "wf_state c1 as1" and w: "w \<in> set as1"
  shows "\<exists>c' as'.
     (case r_attr r of
        None \<Rightarrow> remove_win c1 (Some w)
      | Some attr \<Rightarrow>
          do {
            c2 \<leftarrow> store c1 w (\<lambda>e. e\<lparr>w_x := at_x attr, w_y := at_y attr,
                                    w_width := at_width attr, w_height := at_height attr,
                                    w_border_width := at_border_width attr,
                                    w_override_redirect := at_override_redirect attr,
                                    w_mapped := True\<rparr>);
            c3 \<leftarrow> store c2 w (\<lambda>e. if w_damage e = 0
                                   then e\<lparr>w_damage := (if r_xerror r then 0 else r_damage r)\<rparr>
                                   else e);
            c4 \<leftarrow> store c3 w (bind_window_pixmap c3 (r_bind r));
            Some (c4\<lparr>needs_redraw := True\<rparr>)
          }) = Some c' \<and> wf_state c' as'"
proof (cases "r_attr r")
  case None
  then show ?thesis using remove_win_wf[OF wf w] by auto
next
  case (Some attr)
  obtain e where e: "heap c1 w = Some e" and ok: "bound_ok e" using wf_state_live[OF wf w] by auto
  define e2 where "e2 = (\<lambda>e. if w_damage e = 0
                                   then e\<lparr>w_damage := (if r_xerror r then 0 else r_damage r)\<rparr>
                                   else e) (e\<lparr>w_x := at_x attr, w_y := at_y attr,
                                    w_width := at_width attr, w_height := at_height attr,
                                    w_border_width := at_border_width attr,
                                    w_override_redirect := at_override_redirect attr,
                                    w_mapped := True\<rparr>)"
  define c3 where "c3 = c1\<lparr>heap := (heap c1)(w \<mapsto> e2)\<rparr>"
  define e4 where "e4 = bind_window_pixmap c3 (r_bind r) e2"
  have cl: "\<not> w_pixmap_valid e2 \<longrightarrow> w_pixmap e2 = 0 \<and> w_glx_pixmap e2 = 0 \<and> w_texture e2 = 0"
    using ok by (auto simp: e2_def bound_ok_def)
  have b: "bound_ok e4" unfolding e4_def by (rule bound_ok_bind[OF cl])
  have l2: "w_next e2 = w_next e" "w_prev e2 = w_prev e" "w_xid e2 = w_xid e"
    by (auto simp: e2_def)
  have l: "w_next e4 = w_next e" "w_prev e4 = w_prev e" "w_xid e4 = w_xid e"
    by (simp_all add: e4_def bind_links l2)
  have "wf_state (c1\<lparr>heap := (heap c1)(w \<mapsto> e4), needs_redraw := True\<rparr>) as1"
    using wf_redraw[OF wf_state_upd[OF wf e l b]] by simp
  moreover have "(store c1 w (\<lambda>e. e\<lparr>w_x := at_x attr, w_y := at_y attr,
                                    w_width := at_width attr, w_height := at_height attr,
                                    w_border_width := at_border_width attr,
                                    w_override_redirect := at_override_redirect attr,
                                    w_mapped := True\<rparr>) \<bind>
        (\<lambda>c2. store c2 w (\<lambda>e. if w_damage e = 0
                                   then e\<lparr>w_damage := (if r_xerror r then 0 else r_damage r)\<rparr>
                                   else e) \<bind>
        (\<lambda>c3. store c3 w (bind_window_pixmap c3 (r_bind r)) \<bind>
        (\<lambda>c4. Some (c4\<lparr>needs_redraw := True\<rparr>)))))
       = Some (c1\<lparr>heap := (heap c1)(w \<mapsto> e4), needs_redraw := True\<rparr>)"
    using e by (simp add: store_def e4_def c3_def e2_def)
  ultimately show ?thesis using Some by auto
qed

lemma bound_ok_calloc: "bound_ok (calloc_WinEntry\<lparr>w_xid := xid, w_prev := p, w_next := n\<rparr>)"
  by (simp add: bound_ok_def calloc_WinEntry_def)

lemma add_win_wf:
  assumes wf: "wf_state c as" and nf: "find (\<lambda>a. xid_at (heap c) a = xid) as = None"
  shows "add_win c xid ok = Some (c, None) \<or>
         (\<exists>c1 w. add_win c xid ok = Some (c1, Some w) \<and> wf_state c1 (as @ [w]))"
proof (cases "xid = overlay c \<or> xid = root c \<or> \<not> ok")
  case True
  then show ?thesis using add_win_refused[of c as xid ok] wf by (simp add: wf_state_def)
next
  case False
  have r: "registry c as" using wf by (simp add: wf_state_def)
  have x: "xid \<notin> set (map (xid_at (heap c)) as)" using nf by (simp add: find_None_xid)
  from add_win_new[OF r x] False obtain c1 where
    a: "add_win c xid ok = Some (c1, Some (heap_brk c))"
    and r1: "registry c1 (as @ [heap_brk c])"
    and h: "heap c1 (heap_brk c) =
             Some (calloc_WinEntry\<lparr>w_xid := xid, w_prev := win_tail c, w_next := None\<rparr>)"
    and p: "\<forall>a\<in>set as. map_option payload (heap c1 a) = map_option payload (heap c a)"
    by auto
  have "entry_ok c1 a" if "a \<in> set as" for a
  proof -
    have "entry_ok c a" using wf that by (simp add: wf_state_def list_all_iff)
    then show ?thesis using entry_ok_payload[of c1 a c] p that by simp
  qed
  moreover have "entry_ok c1 (heap_brk c)" using h by (simp add: entry_ok_def bound_ok_calloc)
  ultimately have "wf_state c1 (as @ [heap_brk c])" using r1 by (simp add: wf_state_def list_all_iff)
  with a show ?thesis by blast
qed

lemma handle_map_wf:
  assumes wf: "wf_state c as"
  shows "\<exists>c' as'. handle_map c r window = Some c' \<and> wf_state c' as'"
proof (cases "find (\<lambda>a. xid_at (heap c) a = window) as")
  case (Some w)
  then have w: "w \<in> set as" by (rule find_Some_mem)
  from handle_map_tail_wf[OF wf w, of r] show ?thesis
    using Some wf_find_win[OF wf, of window] by (simp add: handle_map_def)
next
  case None
  from add_win_wf[OF wf None, of "r_alloc_ok r"] show ?thesis
  proof
    assume "add_win c window (r_alloc_ok r) = Some (c, None)"
    then show ?thesis using None wf_find_win[OF wf, of window] wf
      by (auto simp: handle_map_def)
  next
    assume "\<exists>c1 w. add_win c window (r_alloc_ok r) = Some (c1, Some w) \<and> wf_state c1 (as @ [w])"
    then obtain c1 w where a: "add_win c window (r_alloc_ok r) = Some (c1, Some w)"
      and wf1: "wf_state c1 (as @ [w])" by auto
    have w: "w \<in> set (as @ [w])" by simp
    from handle_map_tail_wf[OF wf1 w, of r] show ?thesis
      using None a wf_find_win[OF wf, of window] by (simp add: handle_map_def)
  qed
qed

lemma handle_reparent_wf:
  assumes wf: "wf_state c as"
  shows "\<exists>c' as'. handle_reparent c r window parent = Some c' \<and> wf_state c' as'"
proof (cases "parent = root c")
  case True
  then show ?thesis using handle_map_wf[OF wf, of r window] wf
    by (auto simp: handle_reparent_def split: option.splits)
next
  case False
  have "handle_reparent c r window parent = handle_destroy c window"
    using False by (simp add: handle_reparent_def handle_destroy_def)
  then show ?thesis using handle_destroy_wf[OF wf, of window] by simp
qed

lemma unlink_null_dlist:
  assumes d: "dlist c as" and w: "w \<in> set as"
  shows "\<exists>c1 c2 e2. unlink c w = Some c1 \<and>
           store c1 w (\<lambda>e. e\<lparr>w_prev := None, w_next := None\<rparr>) = Some c2 \<and>
           dlist c2 (remove1 w as) \<and> same_payload c c2 \<and>
           heap c2 w = Some e2 \<and> w_next e2 = None \<and> w_prev e2 = None"
proof -
  from w obtain bs cs where as: "as = bs @ w # cs" by (auto simp: in_set_conv_decomp)
  have dis: "distinct as" using d by (simp add: dlist_def)
  have rm: "remove1 w as = bs @ cs" using dis as by (simp add: remove1_append)
  have wn: "w \<notin> set (bs @ cs)" using dis as by auto
  from unlink_dlist[of c bs w cs] d as obtain c1 where
    u: "unlink c w = Some c1" and d1: "dlist c1 (bs @ cs)" and hw: "heap c1 w = heap c w"
    and sp1: "same_payload c c1" by (auto simp: same_payload_def)
  obtain e where e: "heap c w = Some e" using d w seg_live[of w_next "heap c" "win_head c" as None w]
    by (auto simp: dlist_def)
  define c2 where "c2 = c1\<lparr>heap := (heap c1)(w \<mapsto> e\<lparr>w_prev := None, w_next := None\<rparr>)\<rparr>"
  have s2: "store c1 w (\<lambda>e. e\<lparr>w_prev := None, w_next := None\<rparr>) = Some c2"
    using e hw by (simp add: store_def c2_def)
  have d2: "dlist c2 (bs @ cs)" unfolding c2_def using d1 wn e hw by (intro dlist_set_links) auto
  have sp2: "same_payload c c2"
    using sp1 e hw by (auto simp: c2_def same_payload_def others_def payload_def)
  have e2: "heap c2 w = Some (e\<lparr>w_prev := None, w_next := None\<rparr>)" by (simp add: c2_def)
  show ?thesis using u s2 d2 sp2 e2 rm by auto
qed

lemma wf_state_restacked:
  assumes wf: "wf_state c as" and d: "dlist c' as'" and s: "set as' = set as"
    and sp: "same_payload c c'"
  shows "wf_state c' as'"
proof -
  have r: "registry c as" using wf by (simp add: wf_state_def)
  have r': "registry c' as'" using registry_same_payload[OF r d s sp] .
  show ?thesis
    by (rule wf_state_same_payload[OF wf r']) (use s sp in \<open>auto simp: same_payload_def\<close>)
qed

lemma set_remove1_insert: "w \<in> set as \<Longrightarrow> insert w (set (remove1 w as)) = set as"
  by (induction as) auto

lemma handle_circulate_wf:
  assumes wf: "wf_state c as"
  shows "\<exists>c' as'. handle_circulate c window place = Some c' \<and> wf_state c' as'"
proof (cases "find (\<lambda>a. xid_at (heap c) a = window) as")
  case None
  then show ?thesis using wf wf_find_win[OF wf, of window] by (auto simp: handle_circulate_def)
next
  case (Some w)
  then have w: "w \<in> set as" by (rule find_Some_mem)
  have d: "dlist c as" using wf by (simp add: wf_state_def registry_def)
  have wn: "w \<notin> set (remove1 w as)" using d by (simp add: dlist_def)
  from unlink_null_dlist[OF d w] obtain c1 c2 e2 where
    u: "unlink c w = Some c1"
    and s2: "store c1 w (\<lambda>e. e\<lparr>w_prev := None, w_next := None\<rparr>) = Some c2"
    and d2: "dlist c2 (remove1 w as)" and sp2: "same_payload c c2"
    and e2: "heap c2 w = Some e2" and n2: "w_next e2 = None" and p2: "w_prev e2 = None"
    by blast
  have eqn: "e2\<lparr>w_prev := t, w_next := None\<rparr> = e2\<lparr>w_prev := t\<rparr>" for t
    using n2 by (cases e2) simp
  have eqp: "e2\<lparr>w_next := t, w_prev := None\<rparr> = e2\<lparr>w_next := t\<rparr>" for t
    using p2 by (cases e2) simp
  show ?thesis
  proof (cases "place = PlaceOnTop")
    case True
    have br: "do {
                c3 \<leftarrow> store c2 w (\<lambda>e. e\<lparr>w_prev := win_tail c2\<rparr>);
                c4 \<leftarrow> (case win_tail c3 of
                         Some t \<Rightarrow> store c3 t (\<lambda>e. e\<lparr>w_next := Some w\<rparr>)
                       | None \<Rightarrow> Some (c3\<lparr>win_head := Some w\<rparr>));
                Some (c4\<lparr>win_tail := Some w\<rparr>)
              } = link_top c2 w"
      using e2 by (simp add: link_top_def store_def eqn)
    from link_top_dlist[OF d2 wn e2] obtain c5 where
      l: "link_top c2 w = Some c5" and d5: "dlist c5 (remove1 w as @ [w])"
      and sp5: "same_payload c2 c5" by auto
    have "set (remove1 w as @ [w]) = set as" using set_remove1_insert[OF w] by simp
    from wf_state_restacked[OF wf d5 this same_payload_trans[OF sp2 sp5]]
    have "wf_state (c5\<lparr>needs_redraw := True\<rparr>) (remove1 w as @ [w])" by (rule wf_redraw)
    moreover have "handle_circulate c window place = Some (c5\<lparr>needs_redraw := True\<rparr>)"
      using Some wf_find_win[OF wf, of window] u s2 True br l
      by (simp add: handle_circulate_def del: bind_assoc)
    ultimately show ?thesis by blast
  next
    case False
    have br: "do {
                c3 \<leftarrow> store c2 w (\<lambda>e. e\<lparr>w_next := win_head c2\<rparr>);
                c4 \<leftarrow> (case win_head c3 of
                         Some h \<Rightarrow> store c3 h (\<lambda>e. e\<lparr>w_prev := Some w\<rparr>)
                       | None \<Rightarrow> Some (c3\<lparr>win_tail := Some w\<rparr>));
                Some (c4\<lparr>win_head := Some w\<rparr>)
              } = link_bottom c2 w"
      using e2 by (simp add: link_bottom_def store_def eqp)
    from link_bottom_dlist[OF d2 wn e2] obtain c5 where
      l: "link_bottom c2 w = Some c5" and d5: "dlist c5 (w # remove1 w as)"
      and sp5: "same_payload c2 c5" by auto
    have "set (w # remove1 w as) = set as" using set_remove1_insert[OF w] by simp
    from wf_state_restacked[OF wf d5 this same_payload_trans[OF sp2 sp5]]
    have "wf_state (c5\<lparr>needs_redraw := True\<rparr>) (w # remove1 w as)" by (rule wf_redraw)
    moreover have "handle_circulate c window place = Some (c5\<lparr>needs_redraw := True\<rparr>)"
      using Some wf_find_win[OF wf, of window] u s2 False br l
      by (simp add: handle_circulate_def del: bind_assoc)
    ultimately show ?thesis by blast
  qed
qed

lemma payload_eq_fields:
  assumes "payload e2 = payload e1"
  shows "w_mapped e2 = w_mapped e1" "w_width e2 = w_width e1" "w_height e2 = w_height e1"
    "w_pixmap_valid e2 = w_pixmap_valid e1" "w_pixmap e2 = w_pixmap e1"
    "w_glx_pixmap e2 = w_glx_pixmap e1" "w_texture e2 = w_texture e1" "w_xid e2 = w_xid e1"
proof -
  have "w_mapped (payload e2) = w_mapped (payload e1)" "w_width (payload e2) = w_width (payload e1)"
    "w_height (payload e2) = w_height (payload e1)"
    "w_pixmap_valid (payload e2) = w_pixmap_valid (payload e1)"
    "w_pixmap (payload e2) = w_pixmap (payload e1)"
    "w_glx_pixmap (payload e2) = w_glx_pixmap (payload e1)"
    "w_texture (payload e2) = w_texture (payload e1)" "w_xid (payload e2) = w_xid (payload e1)"
    using assms by simp_all
  then show "w_mapped e2 = w_mapped e1" "w_width e2 = w_width e1" "w_height e2 = w_height e1"
    "w_pixmap_valid e2 = w_pixmap_valid e1" "w_pixmap e2 = w_pixmap e1"
    "w_glx_pixmap e2 = w_glx_pixmap e1" "w_texture e2 = w_texture e1" "w_xid e2 = w_xid e1"
    by (simp_all add: payload_def)
qed

lemma handle_configure_wf:
  assumes wf: "wf_state c as"
  shows "\<exists>c' as'. handle_configure c r ev = Some c' \<and> wf_state c' as'"
proof (cases "ev_window ev = root c")
  case True
  have "wf_state ((if ev_width ev \<noteq> root_width c \<or> ev_height ev \<noteq> root_height c
               then c\<lparr>root_width := ev_width ev, root_height := ev_height ev\<rparr>
               else c)\<lparr>needs_redraw := True\<rparr>) as"
    by (rule wf_state_others[OF wf]) simp_all
  moreover have "handle_configure c r ev =
      Some ((if ev_width ev \<noteq> root_width c \<or> ev_height ev \<noteq> root_height c
               then c\<lparr>root_width := ev_width ev, root_height := ev_height ev\<rparr>
               else c)\<lparr>needs_redraw := True\<rparr>)"
    unfolding handle_configure_def using True by (simp only: if_True simp_thms)
  ultimately show ?thesis by blast
next
  case False
  show ?thesis
  proof (cases "find (\<lambda>a. xid_at (heap c) a = ev_window ev) as")
    case None
    then show ?thesis using False wf wf_find_win[OF wf, of "ev_window ev"]
      by (auto simp: handle_configure_def)
  next
    case (Some w)
    then have w: "w \<in> set as" by (rule find_Some_mem)
    obtain e where e: "heap c w = Some e" and ok: "bound_ok e" using wf_state_live[OF wf w] by auto
    define e1 where "e1 = e\<lparr>w_x := ev_x ev, w_y := ev_y ev,
                            w_width := ev_width ev, w_height := ev_height ev,
                            w_border_width := ev_border_width ev\<rparr>"
    define c1 where "c1 = c\<lparr>heap := (heap c)(w \<mapsto> e1)\<rparr>"
    define resized where "resized = (w_width e \<noteq> ev_width ev \<or> w_height e \<noteq> ev_height ev)"
    have s1: "store c w (\<lambda>e. e\<lparr>w_x := ev_x ev, w_y := ev_y ev,
                            w_width := ev_width ev, w_height := ev_height ev,
                            w_border_width := ev_border_width ev\<rparr>) = Some c1"
      using e by (simp add: store_def c1_def e1_def)
    have r: "registry c as" using wf by (simp add: wf_state_def)
    have r1: "registry c1 as" unfolding c1_def
      by (rule registry_upd[OF r e]) (simp_all add: e1_def)
    from restack_win_registry[OF r1 w, of "ev_above ev"] obtain c2 where
      rs: "restack_win c1 (Some w) (ev_above ev) = Some c2"
      and r2: "registry c2 (restack_order (xid_at (heap c1)) as w (ev_above ev))"
      and sp: "same_payload c1 c2" by auto
    define as' where "as' = restack_order (xid_at (heap c1)) as w (ev_above ev)"
    have sas: "set as' = set as" unfolding as'_def by (rule restack_order_set[OF w])
    have w': "w \<in> set as'" using w sas by simp
    obtain e2 where e2: "heap c2 w = Some e2" using registry_live[OF r2] w' by (auto simp: as'_def)
    have pm: "\<And>a. map_option payload (heap c2 a) = map_option payload (heap c1 a)"
      using sp by (simp add: same_payload_def)
    have pe: "payload e2 = payload e1" using pm[of w] e2 by (simp add: c1_def)
    note f2 = payload_eq_fields[OF pe]
    define e3 where "e3 = (if resized \<and> w_mapped e2 then bind_window_pixmap c2 (r_bind r) e2 else e2)"
    define c3 where "c3 = c2\<lparr>heap := (heap c2)(w \<mapsto> e3)\<rparr>"
    have s3: "(if resized \<and> w_mapped e2
                then store c2 w (bind_window_pixmap c2 (r_bind r)) else Some c2) = Some c3"
      using e2 by (auto simp: store_def c3_def e3_def fun_upd_idem)
    have l3: "w_next e3 = w_next e2" "w_prev e3 = w_prev e2" "w_xid e3 = w_xid e2"
      by (simp_all add: e3_def bind_links)
    have b3: "bound_ok e3"
    proof (cases "resized \<and> w_mapped e2")
      case True
      have "\<not> w_pixmap_valid e2 \<longrightarrow> w_pixmap e2 = 0 \<and> w_glx_pixmap e2 = 0 \<and> w_texture e2 = 0"
        using ok f2 by (auto simp: bound_ok_def e1_def)
      from bound_ok_bind[OF this] True show ?thesis by (simp add: e3_def)
    next
      case False
      then have "bound_ok e1" using ok f2 by (auto simp: bound_ok_def e1_def resized_def)
      then have "bound_ok e2" using f2 by (simp add: bound_ok_def)
      then show ?thesis using False by (auto simp: e3_def)
    qed
    have r3: "registry c3 as'" unfolding c3_def as'_def
      by (rule registry_upd[OF r2 e2 l3])
    have ok3: "entry_ok c3 a" if a: "a \<in> set as'" for a
    proof (cases "a = w")
      case True
      then show ?thesis using b3 by (simp add: entry_ok_def c3_def)
    next
      case False
      have "entry_ok c a" using wf a sas by (simp add: wf_state_def list_all_iff)
      moreover have "map_option payload (heap c3 a) = map_option payload (heap c a)"
        using False pm[of a] by (simp add: c3_def c1_def)
      ultimately show ?thesis using entry_ok_payload[of c3 a c] by simp
    qed
    have wf3: "wf_state c3 as'" using r3 ok3 by (simp add: wf_state_def list_all_iff)
    have "handle_configure c r ev = Some (c3\<lparr>needs_redraw := True\<rparr>)"
    proof (cases "(w_width e \<noteq> ev_width ev \<or> w_height e \<noteq> ev_height ev) \<and> w_mapped e2")
      case True
      then have "store c2 w (bind_window_pixmap c2 (r_bind r)) = Some c3"
        using s3 by (auto simp: resized_def split: if_splits)
      then show ?thesis
        using \<open>ev_window ev \<noteq> root c\<close> Some wf_find_win[OF wf, of "ev_window ev"] e s1 rs e2 True
        by (simp add: handle_configure_def Let_def del: bind_assoc)
    next
      case F: False
      then have "c2 = c3" using s3 by (auto simp: resized_def split: if_splits)
      then show ?thesis
        using \<open>ev_window ev \<noteq> root c\<close> Some wf_find_win[OF wf, of "ev_window ev"] e s1 rs e2 F
        by (auto simp add: handle_configure_def Let_def simp del: bind_assoc)
    qed
    then show ?thesis using wf_redraw[OF wf3] by blast
  qed
qed

lemma handle_event_wf:
  assumes wf: "wf_state c as"
  shows "\<exists>c' as'. handle_event c ev = Some c' \<and> wf_state c' as'"
proof -
  obtain x r where ev: "ev = (x, r)" by (cases ev)
  have "\<exists>c' as'. handle_event c (x, r) = Some c' \<and> wf_state c' as'"
  proof (cases x)
    case (MapNotify w) then show ?thesis using handle_map_wf[OF wf] by simp
  next
    case (UnmapNotify w) then show ?thesis using handle_unmap_wf[OF wf, of w] by auto
  next
    case (DestroyNotify w) then show ?thesis using handle_destroy_wf[OF wf] by simp
  next
    case (ConfigureNotify e) then show ?thesis using handle_configure_wf[OF wf] by simp
  next
    case (ReparentNotify w p) then show ?thesis using handle_reparent_wf[OF wf] by simp
  next
    case (CirculateNotify w p) then show ?thesis using handle_circulate_wf[OF wf] by simp
  next
    case (DamageNotify d) then show ?thesis using handle_damage_wf[OF wf, of d] by auto
  next
    case OtherEvent then show ?thesis using wf by auto
  qed
  then show ?thesis by (simp add: ev)
qed

lemma handle_events_wf:
  "wf_state c as \<Longrightarrow> \<exists>c' as'. handle_events c evs = Some c' \<and> wf_state c' as'"
proof (induction evs arbitrary: c as)
  case Nil
  then show ?case by auto
next
  case (Cons ev evs)
  from handle_event_wf[OF Cons.prems, of ev] obtain c1 as1 where
    "handle_event c ev = Some c1" "wf_state c1 as1" by auto
  then show ?case using Cons.IH[of c1 as1] by simp
qed

text \<open>C6\<close>

theorem unbind_idempotent:
  "unbind_window_pixmap (unbind_window_pixmap w) = unbind_window_pixmap w \<and>
   unbind_releases (unbind_window_pixmap w) = []"
  by (simp add: unbind_window_pixmap_def unbind_releases_def)

theorem unbind_idempotent_witness:
  "unbind_window_pixmap example_bound_window \<noteq> example_bound_window \<and>
   unbind_window_pixmap (unbind_window_pixmap example_bound_window) =
     unbind_window_pixmap example_bound_window \<and>
   unbind_releases (unbind_window_pixmap example_bound_window) = []"
  using unbind_idempotent[of example_bound_window]
  by (simp add: unbind_window_pixmap_def example_bound_window_def calloc_WinEntry_def)

text \<open>C7\<close>

theorem bind_precondition_counterexample:
  "w_width example_bound_window \<le> 0 \<and>
   bind_window_pixmap example_compositor (example_bind_reply 5) example_bound_window
     \<noteq> example_bound_window \<and>
   \<not> w_pixmap_valid
       (bind_window_pixmap example_compositor (example_bind_reply 5) example_bound_window) \<and>
   w_pixmap_valid example_bound_window"
  by (simp add: bind_window_pixmap_def unbind_window_pixmap_def example_bound_window_def
                calloc_WinEntry_def)

theorem bind_precondition_fails:
  assumes "b_attr r = Some attr"
    and "\<not> w_mapped w \<or> w_width w \<le> 0 \<or> w_height w \<le> 0 \<or> \<not> depth_usable cmp (at_depth attr)"
  shows "bind_window_pixmap cmp r w = unbind_window_pixmap w \<and>
         \<not> w_pixmap_valid (bind_window_pixmap cmp r w) \<and>
         (\<not> w_pixmap_valid w \<longrightarrow> bind_window_pixmap cmp r w = w)"
  using assms
  by (auto simp: bind_window_pixmap_def unbind_window_pixmap_def depth_usable_def Let_def)

theorem bind_precondition_fails_witness:
  "b_attr (example_bind_reply 5) = Some example_attr \<and>
   w_width example_bound_window \<le> 0 \<and>
   bind_window_pixmap example_compositor (example_bind_reply 5) example_bound_window =
     unbind_window_pixmap example_bound_window \<and>
   w_pixmap (bind_window_pixmap example_compositor (example_bind_reply 5) example_bound_window) = 0"
  using bind_precondition_fails[of "example_bind_reply 5" example_attr example_bound_window
          example_compositor]
  by (simp add: example_bind_reply_def example_bound_window_def calloc_WinEntry_def
                unbind_window_pixmap_def)

end
